theory Spec2Isabelle
  imports Main "HOL-Library.Word"
begin

section \<open>C data: integers, strings and memory\<close>

text \<open>
  The native process launcher (\<^verbatim>\<open>ProcessImpl_md.c\<close>) computes with C \<^verbatim>\<open>int\<close> and
  \<^verbatim>\<open>size_t\<close>. An \<^verbatim>\<open>int\<close> is a 32-bit two's complement word: \<open>+\<close> wraps around and
  \<open>sint\<close> reads the signed value; a \<^verbatim>\<open>size_t\<close> is a 64-bit word. A NUL-terminated
  string is represented by the list of its characters before the terminating NUL
  (\<open>cstring\<close>: the list holds no NUL); the bytes stored at its address are that list
  followed by NUL. A NULL-terminated array of strings is the list of its elements before
  the NULL; a NULL array pointer is \<open>None\<close>.

  Memory reached through a \<^verbatim>\<open>char *\<close> is a function from addresses (relative to the
  pointer) to bytes. An access the C standard leaves undefined is the error
  \<open>OutOfBounds\<close>; a failed allocation is \<open>OutOfMemory\<close>.
\<close>

type_synonym cint = "32 word"
type_synonym size_t = "64 word"
type_synonym mem = "int \<Rightarrow> char"

datatype error = OutOfBounds | OutOfMemory

definition NUL :: char where
  "NUL = CHR 0x00"

definition cstring :: "string \<Rightarrow> bool" where
  "cstring s = (NUL \<notin> set s)"

text \<open>\<^verbatim>\<open>strlen\<close> counts the stored bytes up to the first NUL.\<close>

definition strlen :: "string \<Rightarrow> nat" where
  "strlen s = length (takeWhile (\<lambda>c. c \<noteq> NUL) (s @ [NUL]))"

text \<open>\<^verbatim>\<open>memcpy(p, src, n)\<close> with \<open>bs\<close> the \<open>n\<close> bytes read from \<^verbatim>\<open>src\<close>.\<close>

definition memcpy :: "mem \<Rightarrow> int \<Rightarrow> char list \<Rightarrow> mem" where
  "memcpy m p bs = (\<lambda>a. if p \<le> a \<and> a < p + int (length bs) then bs ! nat (a - p) else m a)"

definition read_bytes :: "mem \<Rightarrow> int \<Rightarrow> nat \<Rightarrow> char list" where
  "read_bytes m p n = map (\<lambda>k. m (p + int k)) [0..<n]"

definition zeroed :: mem where
  "zeroed = (\<lambda>a. NUL)"

section \<open>\<^verbatim>\<open>arraysize\<close> and \<^verbatim>\<open>copystrings\<close>\<close>

text \<open>
  \<^verbatim>\<open>for (count=0, bytes=0; *a != 0; count++, a++) bytes += strlen(*a)+1;\<close>
  The sum \<^verbatim>\<open>bytes + strlen(*a) + 1\<close> is computed in \<^verbatim>\<open>size_t\<close> and converted back to
  \<^verbatim>\<open>int\<close>, which keeps its low 32 bits.
\<close>

fun arraysize_loop :: "cint \<Rightarrow> cint \<Rightarrow> string list \<Rightarrow> cint \<times> cint" where
  "arraysize_loop count bytes [] = (count, bytes)"
| "arraysize_loop count bytes (a # as) =
     arraysize_loop (count + 1) (bytes + word_of_nat (strlen a + 1)) as"

text \<open>The result is the pair \<open>(*nelems, *nbytes)\<close>.\<close>

definition arraysize :: "string list option \<Rightarrow> cint \<times> cint" where
  "arraysize arg =
     (case arg of
        None \<Rightarrow> (0, 0)
      | Some as \<Rightarrow> (case arraysize_loop 0 0 as of (count, bytes) \<Rightarrow> (count + 1, bytes)))"

text \<open>
  \<^verbatim>\<open>for (p=buf+offset, a=arg; *a != 0; a++) { int len = strlen(*a) +1; memcpy(p, *a, len); p += len; count += len; }\<close>
  \<^verbatim>\<open>len\<close> is the low 32 bits of \<^verbatim>\<open>strlen(*a) + 1\<close>, read as signed. \<^verbatim>\<open>memcpy\<close> takes it as a
  \<^verbatim>\<open>size_t\<close>: a negative \<^verbatim>\<open>len\<close> becomes a length of at least \<open>2 ^ 63\<close> bytes, which reads
  beyond the source string. A non-negative \<^verbatim>\<open>len\<close> is at most \<^verbatim>\<open>strlen(*a) + 1\<close>, and
  that many bytes of the string and its NUL are copied.
\<close>

fun copystrings_loop :: "mem \<Rightarrow> int \<Rightarrow> cint \<Rightarrow> string list \<Rightarrow> error + mem \<times> cint" where
  "copystrings_loop m p count [] = Inr (m, count)"
| "copystrings_loop m p count (a # as) =
     (let len = (word_of_nat (strlen a + 1) :: cint) in
      if sint len < 0 then Inl OutOfBounds
      else copystrings_loop (memcpy m p (take (nat (sint len)) (a @ [NUL])))
             (p + sint len) (count + len) as)"

text \<open>The result is the buffer after the copy and the returned offset.\<close>

definition copystrings :: "mem \<Rightarrow> cint \<Rightarrow> string list option \<Rightarrow> error + mem \<times> cint" where
  "copystrings buf offset arg =
     (case arg of
        None \<Rightarrow> Inr (buf, offset)
      | Some as \<Rightarrow>
          (case copystrings_loop buf (sint offset) 0 as of
             Inl e \<Rightarrow> Inl e
           | Inr (m, count) \<Rightarrow> Inr (m, offset + count)))"

text \<open>
  What the two functions are meant to compute: the sum over all elements of
  \<^verbatim>\<open>strlen + 1\<close>, and the strings laid out one after the other, each with its NUL.
\<close>

fun total_bytes :: "string list \<Rightarrow> nat" where
  "total_bytes [] = 0"
| "total_bytes (a # as) = (length a + 1) + total_bytes as"

fun cstrings :: "string list \<Rightarrow> char list" where
  "cstrings [] = []"
| "cstrings (a # as) = a @ [NUL] @ cstrings as"

section \<open>\<^verbatim>\<open>effectivePathv\<close>\<close>

definition defaultPath :: string where
  "defaultPath = '':/bin:/usr/bin''"

text \<open>The argument is the result of \<^verbatim>\<open>getenv("PATH")\<close>: \<open>None\<close> when it is NULL.\<close>

definition effectivePath :: "string option \<Rightarrow> string" where
  "effectivePath getenv_PATH = (case getenv_PATH of Some s \<Rightarrow> s | None \<Rightarrow> defaultPath)"

text \<open>\<^verbatim>\<open>for (count = 0; *s != '\0'; s++) count += (*s == c);\<close>\<close>

fun countOccurrences_from :: "cint \<Rightarrow> string \<Rightarrow> char \<Rightarrow> cint" where
  "countOccurrences_from count [] c = count"
| "countOccurrences_from count (x # s) c =
     countOccurrences_from (count + (if x = c then 1 else 0)) s c"

definition countOccurrences :: "string \<Rightarrow> char \<Rightarrow> cint" where
  "countOccurrences s c = countOccurrences_from 0 s c"

text \<open>
  The entries of \<^verbatim>\<open>pathv\<close>: NULL, the string literal \<^verbatim>\<open>"."\<close>, or a pointer into the copy
  of the path that follows the array in the same block (\<open>Buf p\<close> is the address of its
  byte \<open>p\<close>). The copy is a list of bytes, the final NUL included.
\<close>

datatype cptr = Null | Lit string | Buf nat

text \<open>
  \<^verbatim>\<open>strcspn(p, reject)\<close> on the buffer: the number of bytes from \<open>p\<close> up to the first one
  that is NUL or in \<open>reject\<close>. Running off the end of the buffer is undefined.
\<close>

definition strcspn :: "char list \<Rightarrow> nat \<Rightarrow> string \<Rightarrow> error + nat" where
  "strcspn buf p reject =
     (let n = length (takeWhile (\<lambda>c. c \<noteq> NUL \<and> c \<notin> set reject) (drop p buf))
      in if p + n < length buf then Inr n else Inl OutOfBounds)"

text \<open>
  \<^verbatim>\<open>for (i = 0; i < count; i++) { char *q = p + strcspn(p, ":"); pathv[i] = (p == q) ? "." : p; *q = '\0'; p = q + 1; }\<close>
  The array is filled from index 0 upwards, so \<open>pathv\<close> holds the entries written so
  far. The index \<open>i\<close> stays below \<^verbatim>\<open>count\<close>, so it is an integer that never wraps.
\<close>

function effectivePathv_loop ::
  "int \<Rightarrow> cint \<Rightarrow> char list \<Rightarrow> nat \<Rightarrow> cptr list \<Rightarrow> error + char list \<times> cptr list" where
  "effectivePathv_loop i count buf p pathv =
     (if i < sint count then
        (case strcspn buf p '':'' of
           Inl e \<Rightarrow> Inl e
         | Inr n \<Rightarrow>
             (let q = p + n in
              effectivePathv_loop (i + 1) count (buf[q := NUL]) (q + 1)
                (pathv @ [if p = q then Lit ''.'' else Buf p])))
      else Inr (buf, pathv))"
  by pat_completeness auto
termination
  by (relation "measure (\<lambda>(i, count, buf, p, pathv). nat (sint count - i))") auto

declare effectivePathv_loop.simps [simp del]

text \<open>\<^verbatim>\<open>sizeof(const char *)\<close> on the 64-bit platforms.\<close>

definition sizeof_ptr :: size_t where
  "sizeof_ptr = 8"

text \<open>
  \<open>xmalloc_ok n\<close> says whether \<^verbatim>\<open>xmalloc(env, n)\<close> returns a block; when it does not,
  \<^verbatim>\<open>effectivePathv\<close> returns NULL. The last store, \<^verbatim>\<open>pathv[count] = NULL\<close>, is out of
  bounds when \<^verbatim>\<open>count\<close> is negative. The result is the final buffer and the array.
\<close>

definition effectivePathv ::
  "(size_t \<Rightarrow> bool) \<Rightarrow> string option \<Rightarrow> error + char list \<times> cptr list" where
  "effectivePathv xmalloc_ok getenv_PATH =
     (let path = effectivePath getenv_PATH;
          count = countOccurrences path (CHR '':'') + 1;
          pathvsize = sizeof_ptr * scast (count + 1);
          pathsize = word_of_nat (strlen path + 1)
      in if \<not> xmalloc_ok (pathvsize + pathsize) then Inl OutOfMemory
         else
           (case effectivePathv_loop 0 count (path @ [NUL]) 0 [] of
              Inl e \<Rightarrow> Inl e
            | Inr (buf, pathv) \<Rightarrow>
                if sint count < 0 then Inl OutOfBounds else Inr (buf, pathv @ [Null])))"

text \<open>The string an entry of \<^verbatim>\<open>pathv\<close> points to, read from the final buffer.\<close>

fun deref :: "char list \<Rightarrow> cptr \<Rightarrow> string option" where
  "deref buf Null = None"
| "deref buf (Lit s) = Some s"
| "deref buf (Buf p) = Some (takeWhile (\<lambda>c. c \<noteq> NUL) (drop p buf))"

text \<open>
  Splitting a string at every occurrence of a separator, in order: the components
  contain no separator, and there is one more of them than there are separators.
\<close>

fun split_at :: "char \<Rightarrow> string \<Rightarrow> string list" where
  "split_at c [] = [[]]"
| "split_at c (x # xs) =
     (if x = c then [] # split_at c xs
      else (x # hd (split_at c xs)) # tl (split_at c xs))"

text \<open>The inverse of splitting: the components joined with the separator between them.\<close>

fun join_with :: "char \<Rightarrow> string list \<Rightarrow> string" where
  "join_with c [] = []"
| "join_with c [x] = x"
| "join_with c (x # y # ys) = x @ c # join_with c (y # ys)"

definition dot_if_empty :: "string \<Rightarrow> string" where
  "dot_if_empty s = (if s = [] then ''.'' else s)"

text \<open>Two allocators: one that always returns a block, one that never does.\<close>

definition unlimited :: "size_t \<Rightarrow> bool" where
  "unlimited n = True"

definition exhausted :: "size_t \<Rightarrow> bool" where
  "exhausted n = False"

section \<open>Branch fixup: \<^verbatim>\<open>PhaseOutput::shorten_branches\<close>\<close>

text \<open>
  \<^verbatim>\<open>output.hpp\<close> declares \<^verbatim>\<open>void shorten_branches(uint* blk_starts)\<close>; its body is in
  \<^verbatim>\<open>output.cpp\<close>, which is not among the sources. The definitions of this section follow
  the algorithm of the specification (``Branch Fixup Engine''), step by step.
\<close>

text \<open>
  Modelled from the spec: the two encodings of a branch, which the missing body of
  \<^verbatim>\<open>shorten_branches\<close> switches between (``short vs. long form'').
\<close>

datatype form = Long | Short

text \<open>
  Modelled from the spec: a machine instruction as the missing body of
  \<^verbatim>\<open>shorten_branches\<close> sees it: either an instruction of a fixed size, or a branch
  with its target block, the sizes of its long and short encodings, and its current
  form. Blocks are in layout order.
\<close>

datatype inst = Other nat | Branch nat nat nat form





















text \<open>
  \<open>shortens a b\<close>: instruction \<open>b\<close> is \<open>a\<close>, or \<open>a\<close> is a long branch and \<open>b\<close> the same
  branch in short form. A short branch is only related to itself: it is never widened.
\<close>

fun shortens :: "inst \<Rightarrow> inst \<Rightarrow> bool" where
  "shortens (Branch t l s Long) b = (b = Branch t l s Long \<or> b = Branch t l s Short)"
| "shortens a b = (b = a)"

section \<open>Correctness of \<^verbatim>\<open>arraysize\<close> and \<^verbatim>\<open>copystrings\<close>\<close>

lemma sint_of_nat_small:
  "n < 2 ^ 31 \<Longrightarrow> sint (word_of_nat n :: cint) = int n"
  by (simp add: signed_of_nat signed_take_bit_int_eq_self)

lemma strlen_cstring: "cstring s \<Longrightarrow> strlen s = length s"
  by (induction s) (auto simp: strlen_def cstring_def)

lemma arraysize_loop_bytes:
  "list_all cstring as \<Longrightarrow>
   snd (arraysize_loop count bytes as) = bytes + word_of_nat (total_bytes as)"
  by (induction as arbitrary: count bytes) (simp_all add: strlen_cstring)

lemma arraysize_nbytes:
  "list_all cstring as \<Longrightarrow> snd (arraysize (Some as)) = word_of_nat (total_bytes as)"
  using arraysize_loop_bytes [of as 0 0]
  by (cases "arraysize_loop 0 0 as") (simp add: arraysize_def)

lemma length_cstrings: "length (cstrings as) = total_bytes as"
  by (induction as) simp_all

lemma memcpy_Nil: "memcpy m p [] = m"
  by (auto simp: memcpy_def fun_eq_iff)

lemma memcpy_append:
  "memcpy (memcpy m p xs) (p + int (length xs)) ys = memcpy m p (xs @ ys)"
proof
  fix a
  show "memcpy (memcpy m p xs) (p + int (length xs)) ys a = memcpy m p (xs @ ys) a"
  proof (cases "p + int (length xs) \<le> a")
    case True
    then have "nat (a - p) - length xs = nat (a - (p + int (length xs)))"
      and "\<not> nat (a - p) < length xs"
      by linarith+
    with True show ?thesis
      by (simp add: memcpy_def nth_append)
  next
    case False
    then have "a < p \<or> nat (a - p) < length xs"
      by linarith
    with False show ?thesis
      by (auto simp: memcpy_def nth_append)
  qed
qed

lemma read_bytes_memcpy: "read_bytes (memcpy m p bs) p (length bs) = bs"
  by (rule nth_equalityI) (simp_all add: read_bytes_def memcpy_def)

lemma memcpy_frame: "a < p \<or> p + int (length bs) \<le> a \<Longrightarrow> memcpy m p bs a = m a"
  by (auto simp: memcpy_def)

lemma copystrings_loop_fits:
  "list_all cstring as \<Longrightarrow> total_bytes as < 2 ^ 31 \<Longrightarrow>
   copystrings_loop m p count as =
     Inr (memcpy m p (cstrings as), count + word_of_nat (total_bytes as))"
proof (induction as arbitrary: m p count)
  case Nil
  show ?case
    by (simp add: memcpy_Nil)
next
  case (Cons a as)
  from Cons.prems have small: "length a + 1 < 2 ^ 31" and rest: "total_bytes as < 2 ^ 31"
    and wf: "cstring a" "list_all cstring as"
    by simp_all
  have len: "sint (word_of_nat (length a + 1) :: cint) = int (length a + 1)"
    using small by (rule sint_of_nat_small)
  have "memcpy (memcpy m p (a @ [NUL])) (p + int (length (a @ [NUL]))) (cstrings as)
        = memcpy m p ((a @ [NUL]) @ cstrings as)"
    by (rule memcpy_append)
  then show ?case
    using len Cons.IH [OF wf(2) rest] by (simp add: strlen_cstring [OF wf(1)] Let_def add.assoc)
qed

text \<open>
  Claim C9, as amended. For every NULL-terminated array of NUL-terminated strings whose total size,
  the sum over all elements of \<^verbatim>\<open>strlen + 1\<close>, is below \<open>2 ^ 31\<close>, and every offset:
  \<^verbatim>\<open>copystrings\<close> returns \<^verbatim>\<open>offset + nbytes\<close> in \<^verbatim>\<open>int\<close> arithmetic, where \<^verbatim>\<open>nbytes\<close> is the
  value \<^verbatim>\<open>arraysize\<close> computes, and that value is exactly the total size; the buffer
  holds, from \<^verbatim>\<open>offset\<close> on, every string with its terminating NUL, one after the other,
  and is unchanged everywhere else; the returned offset is \<^verbatim>\<open>offset\<close> plus the total size
  whenever that sum is below \<open>2 ^ 31\<close>. For a NULL array, \<^verbatim>\<open>copystrings\<close> returns the
  offset unchanged and \<^verbatim>\<open>arraysize\<close> sets both results to 0.
\<close>

theorem copystrings_arraysize:
  assumes "list_all cstring as" and "total_bytes as < 2 ^ 31"
  shows "(\<exists>m'. copystrings buf offset (Some as) = Inr (m', offset + snd (arraysize (Some as)))
            \<and> read_bytes m' (sint offset) (total_bytes as) = cstrings as
            \<and> (\<forall>a. a < sint offset \<or> sint offset + int (total_bytes as) \<le> a \<longrightarrow> m' a = buf a))
         \<and> sint (snd (arraysize (Some as))) = int (total_bytes as)
         \<and> (sint offset + int (total_bytes as) < 2 ^ 31 \<longrightarrow>
              sint (offset + snd (arraysize (Some as))) = sint offset + int (total_bytes as))
         \<and> copystrings buf offset None = Inr (buf, offset)
         \<and> arraysize None = (0, 0)"
proof -
  let ?m = "memcpy buf (sint offset) (cstrings as)"
  have "copystrings buf offset (Some as) = Inr (?m, offset + snd (arraysize (Some as)))"
    using copystrings_loop_fits [OF assms, of buf "sint offset" 0]
    by (simp add: copystrings_def arraysize_nbytes [OF assms(1)])
  moreover have "read_bytes ?m (sint offset) (total_bytes as) = cstrings as"
    using read_bytes_memcpy [of buf "sint offset" "cstrings as"] by (simp add: length_cstrings)
  moreover have "\<forall>a. a < sint offset \<or> sint offset + int (total_bytes as) \<le> a \<longrightarrow> ?m a = buf a"
    using memcpy_frame [of _ "sint offset" "cstrings as" buf] by (simp add: length_cstrings)
  ultimately have copy: "\<exists>m'. copystrings buf offset (Some as) = Inr (m', offset + snd (arraysize (Some as)))
           \<and> read_bytes m' (sint offset) (total_bytes as) = cstrings as
           \<and> (\<forall>a. a < sint offset \<or> sint offset + int (total_bytes as) \<le> a \<longrightarrow> m' a = buf a)"
    by blast
  have nbytes: "sint (snd (arraysize (Some as))) = int (total_bytes as)"
    using assms by (simp add: arraysize_nbytes sint_of_nat_small)
  have ret: "sint (offset + snd (arraysize (Some as))) = sint offset + int (total_bytes as)"
    if "sint offset + int (total_bytes as) < 2 ^ 31"
  proof -
    have "- (2 ^ 31) \<le> sint offset"
      using sint_ge [of offset] by simp
    then have "- (2 ^ 31) \<le> sint offset + int (total_bytes as)"
      by linarith
    with that show ?thesis
      by (simp add: sint_word_ariths nbytes signed_take_bit_int_eq_self)
  qed
  have null: "copystrings buf offset None = Inr (buf, offset)" "arraysize None = (0, 0)"
    by (simp_all add: copystrings_def arraysize_def)
  from copy nbytes ret null show ?thesis
    by blast
qed

text \<open>
  Claim C9, witness: the array \<^verbatim>\<open>{"ab", "c", NULL}\<close> copied to offset 3 occupies 5 bytes
  and the next free offset is 8.
\<close>

theorem copystrings_arraysize_witness:
  "list_all cstring [''ab'', ''c'']
   \<and> total_bytes [''ab'', ''c''] < 2 ^ 31
   \<and> (\<exists>m'. copystrings zeroed 3 (Some [''ab'', ''c'']) = Inr (m', 8)
         \<and> read_bytes m' 3 5 = [CHR ''a'', CHR ''b'', NUL, CHR ''c'', NUL])
   \<and> snd (arraysize (Some [''ab'', ''c''])) = 5"
proof -
  have wf: "list_all cstring [''ab'', ''c'']"
    by (simp add: cstring_def NUL_def)
  have a: "total_bytes [''ab'', ''c''] < 2 ^ 31"
    by simp
  have b: "snd (arraysize (Some [''ab'', ''c''])) = 5"
    by (simp add: arraysize_def strlen_def NUL_def)
  have t: "total_bytes [''ab'', ''c''] = 5"
    by simp
  have cs: "cstrings [''ab'', ''c''] = [CHR ''a'', CHR ''b'', NUL, CHR ''c'', NUL]"
    by simp
  have "\<exists>m'. copystrings zeroed 3 (Some [''ab'', ''c'']) = Inr (m', 3 + 5)
         \<and> read_bytes m' (sint (3 :: cint)) 5 = [CHR ''a'', CHR ''b'', NUL, CHR ''c'', NUL]"
    using copystrings_arraysize [OF wf a, of zeroed 3] unfolding t cs b
    by blast
  then have "\<exists>m'. copystrings zeroed 3 (Some [''ab'', ''c'']) = Inr (m', 8)
         \<and> read_bytes m' 3 5 = [CHR ''a'', CHR ''b'', NUL, CHR ''c'', NUL]"
    by simp
  with wf a b show ?thesis
    by blast
qed

text \<open>
  Claim C9, counterexample to the claim as stated for every array: for a single string
  of \<open>2 ^ 31 - 1\<close> characters the total size is \<open>2 ^ 31\<close>, but \<^verbatim>\<open>arraysize\<close> computes
  \<open>- (2 ^ 31)\<close>, and in \<^verbatim>\<open>copystrings\<close> the length passed to \<^verbatim>\<open>memcpy\<close> is negative.
\<close>

theorem copystrings_arraysize_counterexample:
  "list_all cstring [replicate 2147483647 (CHR ''a'')]
   \<and> total_bytes [replicate 2147483647 (CHR ''a'')] = 2147483648
   \<and> sint (snd (arraysize (Some [replicate 2147483647 (CHR ''a'')]))) = - 2147483648
   \<and> copystrings zeroed 0 (Some [replicate 2147483647 (CHR ''a'')]) = Inl OutOfBounds"
proof -
  have wf: "cstring (replicate 2147483647 (CHR ''a''))"
    by (simp add: cstring_def NUL_def)
  then show ?thesis
    by (simp add: arraysize_def copystrings_def strlen_cstring)
qed

section \<open>Correctness of \<^verbatim>\<open>effectivePathv\<close>\<close>

lemma countOccurrences_from_count_list:
  "countOccurrences_from count s c = count + word_of_nat (count_list s c)"
  by (induction s arbitrary: count) simp_all

lemma countOccurrences_count_list:
  "countOccurrences s c = word_of_nat (count_list s c)"
  by (simp add: countOccurrences_def countOccurrences_from_count_list)

lemma split_at_nonempty: "split_at c s \<noteq> []"
  by (induction s) simp_all

lemma split_at_no_sep: "c \<notin> set h \<Longrightarrow> split_at c h = [h]"
  by (induction h) auto

lemma split_at_sep: "c \<notin> set h \<Longrightarrow> split_at c (h @ c # t) = h # split_at c t"
  by (induction h) auto

lemma length_split_at: "length (split_at c s) = count_list s c + 1"
  by (induction s) (simp_all add: split_at_nonempty Suc_leI)

text \<open>
  \<open>split_at\<close> is the splitting of a string at its separators: joining the components
  gives the string back, and no component contains the separator.
\<close>

lemma join_with_split_at: "join_with c (split_at c s) = s"
proof (induction s)
  case Nil
  show ?case by simp
next
  case (Cons x xs)
  obtain h t where S: "split_at c xs = h # t"
    using split_at_nonempty [of c xs] by (cases "split_at c xs") auto
  with Cons.IH show ?case
    by (cases t) auto
qed

lemma split_at_components: "x \<in> set (split_at c s) \<Longrightarrow> c \<notin> set x"
proof (induction s arbitrary: x)
  case Nil
  then show ?case by simp
next
  case (Cons y ys)
  obtain h t where S: "split_at c ys = h # t"
    using split_at_nonempty [of c ys] by (cases "split_at c ys") auto
  with Cons show ?case
    by (auto split: if_splits)
qed

lemma count_list_0_notin: "count_list s c = 0 \<Longrightarrow> c \<notin> set s"
  by (simp add: count_list_0_iff)

lemma count_list_Suc_split:
  "count_list s c = Suc k \<Longrightarrow> \<exists>h t. s = h @ c # t \<and> c \<notin> set h \<and> count_list t c = k"
proof (induction s)
  case Nil
  then show ?case by simp
next
  case (Cons x s)
  show ?case
  proof (cases "x = c")
    case True
    with Cons.prems have "x # s = [] @ c # s \<and> c \<notin> set [] \<and> count_list s c = k"
      by simp
    then show ?thesis by blast
  next
    case False
    with Cons.prems have "count_list s c = Suc k"
      by simp
    then obtain h t where "s = h @ c # t" "c \<notin> set h" "count_list t c = k"
      using Cons.IH by blast
    with False have "x # s = (x # h) @ c # t \<and> c \<notin> set (x # h) \<and> count_list t c = k"
      by simp
    then show ?thesis by blast
  qed
qed

lemma strcspn_stop:
  assumes "NUL \<notin> set h" and "CHR '':'' \<notin> set h" and "x = NUL \<or> x = CHR '':''"
  shows "strcspn (pre @ h @ x # post) (length pre) '':'' = Inr (length h)"
proof -
  have "takeWhile (\<lambda>c. c \<noteq> NUL \<and> c \<notin> set '':'') (h @ x # post) = h"
    using assms by (subst takeWhile_append2) auto
  then show ?thesis
    by (simp add: strcspn_def)
qed

lemma effectivePathv_loop_stop:
  "\<not> i < sint count \<Longrightarrow> effectivePathv_loop i count buf p pathv = Inr (buf, pathv)"
  by (simp add: effectivePathv_loop.simps)

lemma effectivePathv_loop_step:
  assumes "i < sint count"
    and "NUL \<notin> set h" and "CHR '':'' \<notin> set h" and "x = NUL \<or> x = CHR '':''"
  shows "effectivePathv_loop i count (pre @ h @ x # post) (length pre) pathv =
         effectivePathv_loop (i + 1) count (pre @ h @ NUL # post) (length pre + length h + 1)
           (pathv @ [if h = [] then Lit ''.'' else Buf (length pre)])"
proof -
  have upd: "(pre @ h @ x # post)[length pre + length h := NUL] = pre @ h @ NUL # post"
    by (simp add: list_update_append)
  show ?thesis
    using assms(1) strcspn_stop [OF assms(2-4), of pre post] upd
    by (subst effectivePathv_loop.simps) (simp add: Let_def)
qed

lemma deref_Buf_prefix:
  assumes "take (length pre + length h + 1) buf = pre @ h @ [NUL]" and "NUL \<notin> set h"
  shows "deref buf (Buf (length pre)) = Some h"
proof -
  have "buf = (pre @ h @ [NUL]) @ drop (length pre + length h + 1) buf"
    using assms(1) append_take_drop_id [of "length pre + length h + 1" buf] by simp
  then have "drop (length pre) buf = h @ NUL # drop (length pre + length h + 1) buf"
    by (metis append.assoc append_Cons append_Nil append_eq_conv_conj)
  moreover have "takeWhile (\<lambda>c. c \<noteq> NUL) (h @ NUL # drop (length pre + length h + 1) buf) = h"
    using assms(2) by (subst takeWhile_append2) auto
  ultimately show ?thesis
    by simp
qed

lemma effectivePathv_loop_correct:
  assumes "count_list rest (CHR '':'') = k" and "NUL \<notin> set rest"
    and "sint count = i + int k + 1"
  shows "\<exists>buf' ptrs.
           effectivePathv_loop i count (pre @ rest @ [NUL]) (length pre) pathv
             = Inr (buf', pathv @ ptrs)
           \<and> take (length pre) buf' = pre
           \<and> map (deref buf') ptrs = map (\<lambda>s. Some (dot_if_empty s)) (split_at (CHR '':'') rest)"
  using assms
proof (induction k arbitrary: rest i pre pathv)
  case 0
  let ?e = "if rest = [] then Lit ''.'' else Buf (length pre)"
  from "0.prems" have nosep: "CHR '':'' \<notin> set rest"
    by (simp add: count_list_0_notin)
  have lt: "i < sint count" and stop: "\<not> i + 1 < sint count"
    using "0.prems" by simp_all
  have run: "effectivePathv_loop i count (pre @ rest @ [NUL]) (length pre) pathv
             = Inr (pre @ rest @ [NUL], pathv @ [?e])"
    using effectivePathv_loop_step [OF lt "0.prems"(2) nosep, of NUL pre "[]" pathv]
      effectivePathv_loop_stop [OF stop]
    by simp
  have "deref (pre @ rest @ [NUL]) ?e = Some (dot_if_empty rest)"
    using deref_Buf_prefix [of pre rest "pre @ rest @ [NUL]"] "0.prems"(2)
    by (simp add: dot_if_empty_def)
  then have "map (deref (pre @ rest @ [NUL])) [?e]
             = map (\<lambda>s. Some (dot_if_empty s)) (split_at (CHR '':'') rest)"
    by (simp add: split_at_no_sep [OF nosep])
  with run show ?case
    by (intro exI [of _ "pre @ rest @ [NUL]"] exI [of _ "[?e]"]) simp
next
  case (Suc k)
  obtain h t where rest: "rest = h @ CHR '':'' # t" and nosep: "CHR '':'' \<notin> set h"
    and cnt: "count_list t (CHR '':'') = k"
    using count_list_Suc_split [OF Suc.prems(1)] by blast
  let ?e = "if h = [] then Lit ''.'' else Buf (length pre)"
  let ?pre = "pre @ h @ [NUL]"
  have nul_h: "NUL \<notin> set h" and nul_t: "NUL \<notin> set t"
    using Suc.prems(2) rest by simp_all
  have lt: "i < sint count" and rem: "sint count = (i + 1) + int k + 1"
    using Suc.prems(3) by simp_all
  have step: "effectivePathv_loop i count (pre @ rest @ [NUL]) (length pre) pathv
              = effectivePathv_loop (i + 1) count (?pre @ t @ [NUL]) (length ?pre) (pathv @ [?e])"
    using effectivePathv_loop_step [OF lt nul_h nosep, of "CHR '':''" pre "t @ [NUL]" pathv]
    by (simp add: rest)
  obtain buf' ptrs where
    run: "effectivePathv_loop (i + 1) count (?pre @ t @ [NUL]) (length ?pre) (pathv @ [?e])
          = Inr (buf', (pathv @ [?e]) @ ptrs)"
    and pre': "take (length ?pre) buf' = ?pre"
    and ds: "map (deref buf') ptrs = map (\<lambda>s. Some (dot_if_empty s)) (split_at (CHR '':'') t)"
    using Suc.IH [OF cnt nul_t rem, of ?pre "pathv @ [?e]"] by blast
  have "take (length pre) (take (length ?pre) buf') = pre"
    by (simp only: pre') simp
  then have keep: "take (length pre) buf' = pre"
    by (simp add: min_def)
  have "deref buf' ?e = Some (dot_if_empty h)"
    using deref_Buf_prefix [of pre h buf'] pre' nul_h
    by (simp add: dot_if_empty_def)
  then have "map (deref buf') (?e # ptrs)
             = map (\<lambda>s. Some (dot_if_empty s)) (split_at (CHR '':'') rest)"
    using ds by (simp add: rest split_at_sep [OF nosep])
  with step run keep show ?case
    by (intro exI [of _ buf'] exI [of _ "?e # ptrs"]) simp
qed


lemma sint_count:
  assumes "count_list path (CHR '':'') < 2 ^ 31 - 1"
  shows "sint (countOccurrences path (CHR '':'') + 1) = int (count_list path (CHR '':'')) + 1"
    and "sint (countOccurrences path (CHR '':'')) = int (count_list path (CHR '':''))"
proof -
  have "countOccurrences path (CHR '':'') + 1 = word_of_nat (count_list path (CHR '':'') + 1)"
    by (simp add: countOccurrences_count_list)
  moreover have "count_list path (CHR '':'') + 1 < 2 ^ 31"
    using assms by simp
  ultimately show "sint (countOccurrences path (CHR '':'') + 1) = int (count_list path (CHR '':'')) + 1"
    using sint_of_nat_small [of "count_list path (CHR '':'') + 1"] by (simp add: ac_simps)
  have "count_list path (CHR '':'') < 2 ^ 31"
    using assms by simp
  then show "sint (countOccurrences path (CHR '':'')) = int (count_list path (CHR '':''))"
    by (simp add: countOccurrences_count_list sint_of_nat_small)
qed

lemma count_list_replicate_same: "count_list (replicate n c) c = n"
  by (induction n) simp_all

lemma countOccurrences_replicate:
  "countOccurrences (replicate n c) c = word_of_nat n"
  by (simp add: countOccurrences_count_list count_list_replicate_same)

text \<open>
  Claim C10, as amended. Whenever the allocation succeeds and the path (a string without
  NUL) has fewer than \<open>2 ^ 31 - 1\<close> colons, \<^verbatim>\<open>effectivePathv\<close> produces an array of exactly
  \<^verbatim>\<open>countOccurrences(path, ':') + 1\<close> components followed by a NULL terminator; the
  components are those of the path split at every colon, in order, with every empty
  component replaced by \<^verbatim>\<open>"."\<close>. When \<^verbatim>\<open>PATH\<close> is unset the path is \<^verbatim>\<open>":/bin:/usr/bin"\<close>,
  whose components are \<^verbatim>\<open>"."\<close>, \<^verbatim>\<open>"/bin"\<close> and \<^verbatim>\<open>"/usr/bin"\<close>.
\<close>

theorem effectivePathv_splits:
  assumes "cstring (effectivePath getenv_PATH)"
    and "count_list (effectivePath getenv_PATH) (CHR '':'') < 2 ^ 31 - 1"
    and "xmalloc_ok (sizeof_ptr * scast (countOccurrences (effectivePath getenv_PATH) (CHR '':'') + 1 + 1)
           + word_of_nat (strlen (effectivePath getenv_PATH) + 1))"
  shows "(\<exists>buf ptrs.
            effectivePathv xmalloc_ok getenv_PATH = Inr (buf, ptrs @ [Null])
            \<and> int (length ptrs) = sint (countOccurrences (effectivePath getenv_PATH) (CHR '':'')) + 1
            \<and> map (deref buf) ptrs
                = map (\<lambda>s. Some (dot_if_empty s)) (split_at (CHR '':'') (effectivePath getenv_PATH)))
         \<and> effectivePath None = '':/bin:/usr/bin''
         \<and> map dot_if_empty (split_at (CHR '':'') (effectivePath None)) = [''.'', ''/bin'', ''/usr/bin'']"
proof -
  let ?path = "effectivePath getenv_PATH"
  let ?count = "countOccurrences ?path (CHR '':'') + 1"
  note cnt = sint_count [OF assms(2)]
  obtain buf ptrs where
    run: "effectivePathv_loop 0 ?count (?path @ [NUL]) 0 [] = Inr (buf, ptrs)"
    and ds: "map (deref buf) ptrs = map (\<lambda>s. Some (dot_if_empty s)) (split_at (CHR '':'') ?path)"
    using effectivePathv_loop_correct [OF refl assms(1) [unfolded cstring_def], of ?count 0 "[]" "[]"]
      cnt(1)
    by auto
  have "length (map (deref buf) ptrs) = count_list ?path (CHR '':'') + 1"
    by (simp only: ds length_map length_split_at)
  then have len: "int (length ptrs) = sint (countOccurrences ?path (CHR '':'')) + 1"
    using cnt(2) by simp
  have "effectivePathv xmalloc_ok getenv_PATH = Inr (buf, ptrs @ [Null])"
    using assms(3) run cnt(1) by (simp add: effectivePathv_def Let_def)
  with len ds have "\<exists>buf ptrs.
            effectivePathv xmalloc_ok getenv_PATH = Inr (buf, ptrs @ [Null])
            \<and> int (length ptrs) = sint (countOccurrences ?path (CHR '':'')) + 1
            \<and> map (deref buf) ptrs = map (\<lambda>s. Some (dot_if_empty s)) (split_at (CHR '':'') ?path)"
    by blast
  moreover have "effectivePath None = '':/bin:/usr/bin''"
    by (simp add: effectivePath_def defaultPath_def)
  moreover have "map dot_if_empty (split_at (CHR '':'') (effectivePath None)) = [''.'', ''/bin'', ''/usr/bin'']"
    by (simp add: effectivePath_def defaultPath_def dot_if_empty_def)
  ultimately show ?thesis
    by blast
qed

text \<open>
  Claim C10, witness: with \<^verbatim>\<open>PATH\<close> unset and an allocator that succeeds, the array
  holds \<^verbatim>\<open>"."\<close>, \<^verbatim>\<open>"/bin"\<close>, \<^verbatim>\<open>"/usr/bin"\<close> and NULL.
\<close>

theorem effectivePathv_splits_witness:
  "cstring (effectivePath None)
   \<and> count_list (effectivePath None) (CHR '':'') < 2 ^ 31 - 1
   \<and> unlimited (sizeof_ptr * scast (countOccurrences (effectivePath None) (CHR '':'') + 1 + 1)
           + word_of_nat (strlen (effectivePath None) + 1))
   \<and> (\<exists>buf ptrs.
         effectivePathv unlimited None = Inr (buf, ptrs @ [Null])
         \<and> int (length ptrs) = 3
         \<and> map (deref buf) ptrs = [Some ''.'', Some ''/bin'', Some ''/usr/bin''])"
proof -
  have a: "cstring (effectivePath None)"
    by (simp add: cstring_def effectivePath_def defaultPath_def NUL_def)
  have b: "count_list (effectivePath None) (CHR '':'') < 2 ^ 31 - 1"
    by (simp add: effectivePath_def defaultPath_def)
  have c: "unlimited (sizeof_ptr * scast (countOccurrences (effectivePath None) (CHR '':'') + 1 + 1)
           + word_of_nat (strlen (effectivePath None) + 1))"
    by (simp add: unlimited_def)
  have d: "sint (countOccurrences (effectivePath None) (CHR '':'')) + 1 = 3"
    by (simp add: effectivePath_def defaultPath_def countOccurrences_def)
  have e: "map (\<lambda>s. Some (dot_if_empty s)) (split_at (CHR '':'') (effectivePath None))
           = [Some ''.'', Some ''/bin'', Some ''/usr/bin'']"
    by (simp add: effectivePath_def defaultPath_def dot_if_empty_def)
  have "\<exists>buf ptrs.
         effectivePathv unlimited None = Inr (buf, ptrs @ [Null])
         \<and> int (length ptrs) = 3
         \<and> map (deref buf) ptrs = [Some ''.'', Some ''/bin'', Some ''/usr/bin'']"
    using conjunct1 [OF effectivePathv_splits [of None unlimited, OF a b c]]
    by (simp only: d e)
  with a b c show ?thesis
    by blast
qed

text \<open>
  Claim C10, counterexample to the claim as stated for every path: when the allocation
  fails, \<^verbatim>\<open>effectivePathv\<close> returns NULL and no array. For a path of \<open>2 ^ 31 - 1\<close>
  colons \<^verbatim>\<open>count\<close> wraps around to \<open>- (2 ^ 31)\<close>: the loop does not run and the store
  \<^verbatim>\<open>pathv[count] = NULL\<close> is out of bounds. For a path of \<open>2 ^ 32 - 1\<close> colons
  \<^verbatim>\<open>count\<close> wraps around to 0, so the array holds the NULL terminator alone, where
  splitting the path gives \<open>2 ^ 32\<close> components.
\<close>

theorem effectivePathv_splits_counterexample:
  "effectivePathv exhausted None = Inl OutOfMemory
   \<and> effectivePathv unlimited (Some (replicate 2147483647 (CHR '':''))) = Inl OutOfBounds
   \<and> effectivePathv unlimited (Some (replicate 4294967295 (CHR '':'')))
       = Inr (replicate 4294967295 (CHR '':'') @ [NUL], [Null])
   \<and> length (split_at (CHR '':'') (replicate 4294967295 (CHR '':''))) = 4294967296"
proof -
  have "effectivePathv exhausted None = Inl OutOfMemory"
    by (simp add: effectivePathv_def exhausted_def Let_def)
  moreover have "effectivePathv unlimited (Some (replicate 2147483647 (CHR '':''))) = Inl OutOfBounds"
    by (simp add: effectivePathv_def unlimited_def Let_def effectivePath_def
        countOccurrences_replicate effectivePathv_loop_stop)
  moreover have "effectivePathv unlimited (Some (replicate 4294967295 (CHR '':'')))
       = Inr (replicate 4294967295 (CHR '':'') @ [NUL], [Null])"
    by (simp add: effectivePathv_def unlimited_def Let_def effectivePath_def
        countOccurrences_replicate effectivePathv_loop_stop)
  moreover have "length (split_at (CHR '':'') (replicate 4294967295 (CHR '':''))) = 4294967296"
    by (simp add: length_split_at count_list_replicate_same)
  ultimately show ?thesis
    by blast
qed

section \<open>Termination of the branch fixup\<close>





lemma shortens_Short: "shortens (Branch t l s Short) b \<Longrightarrow> b = Branch t l s Short"
  by simp





















end
